theory Spec2Isabelle
  imports Main "HOL-Library.Sublist"
begin

section \<open>The procstats collector of node\_exporter (collector/procstats.go)\<close>

text \<open>
  The collector reads \<^verbatim>\<open>/var/run/<name>.pid\<close> for every registered process name,
  parses the process identifier, opens \<^verbatim>\<open><proc>/<pid>/status\<close> and extracts the
  \<^verbatim>\<open>VmRSS\<close> field. The three pieces of control flow are the first loop of
  \<^verbatim>\<open>procstatsCollector.Update\<close> (the PID resolver), \<^verbatim>\<open>getProcessStats\<close>
  (the orchestrator) and \<^verbatim>\<open>parseProcessStats\<close> (the status parser).

  Conventions of the embedding:
  \<^item> a Go \<^verbatim>\<open>string\<close> or \<^verbatim>\<open>[]byte\<close> is a \<open>string\<close> (a list of bytes);
  \<^item> a Go \<^verbatim>\<open>int\<close> is an \<open>int\<close>; the only arithmetic on it happens inside
    \<^verbatim>\<open>strconv\<close>, where the 64-bit bounds are written out;
  \<^item> a run-time panic is the \<open>Inl\<close> branch of a sum;
  \<^item> \<^verbatim>\<open>log.Errorf\<close> appends an entry to the list of log entries a function returns;
  \<^item> the file system is a function from a path to the bytes a reader delivers
    (\<open>None\<close> when the file cannot be opened).
\<close>

subsection \<open>Panics, errors and log entries\<close>

datatype go_panic =
    IndexOutOfRange          \<comment> \<open>\<^verbatim>\<open>xs[i]\<close> with \<^verbatim>\<open>i >= len(xs)\<close>\<close>
  | SliceBoundsOutOfRange    \<comment> \<open>\<^verbatim>\<open>s[a:b]\<close> with bounds outside \<^verbatim>\<open>0 <= a <= b <= len(s)\<close>\<close>

datatype num_error = ErrSyntax | ErrRange

datatype go_error =
    PathError string         \<comment> \<open>\<^verbatim>\<open>os.Open\<close> failed on this path\<close>

datatype log_entry =
    LogPidConvertFailed string num_error  \<comment> \<open>Update: "Failed to convert byte array to int ..."\<close>
  | LogOpenFailed string                  \<comment> \<open>getProcessStats: "Unable to open the file ..."\<close>
  | LogParseStatsFailed string            \<comment> \<open>getProcessStats: "Unable to parse the process statistics ..."\<close>
  | LogRssParseFailed int                 \<comment> \<open>parseProcessStats: "Unable to parse the resident memory ..."\<close>

subsection \<open>The Go standard library functions the collector calls\<close>

subsubsection \<open>strconv\<close>

text \<open>The size of \<^verbatim>\<open>int\<close> is that of the 64-bit targets (\<^verbatim>\<open>strconv.IntSize\<close>).\<close>

definition intSize :: nat where
  "intSize = 64"

definition maxUint64 :: nat where
  "maxUint64 = 2 ^ 64 - 1"

definition isDigit :: "char \<Rightarrow> bool" where
  "isDigit c = (48 \<le> (of_char c :: nat) \<and> (of_char c :: nat) \<le> 57)"

definition digitVal :: "char \<Rightarrow> nat" where
  "digitVal c = of_char c - 48"

text \<open>
  The digit loop of \<^verbatim>\<open>strconv.ParseUint(s, 10, 64)\<close>: \<open>n\<close> is the \<^verbatim>\<open>uint64\<close>
  accumulator, the multiplication and the addition wrap modulo \<open>2 ^ 64\<close>, and the two
  overflow tests are those of the library.
\<close>

fun ParseUint_loop :: "string \<Rightarrow> nat \<Rightarrow> nat \<times> num_error option" where
  "ParseUint_loop [] n = (n, None)"
| "ParseUint_loop (c # cs) n =
     (if \<not> isDigit c then (0, Some ErrSyntax)
      else if maxUint64 div 10 + 1 \<le> n then (maxUint64, Some ErrRange)
      else
        (let n10 = (n * 10) mod 2 ^ 64;
             n1 = (n10 + digitVal c) mod 2 ^ 64
         in if n1 < n10 \<or> maxUint64 < n1 then (maxUint64, Some ErrRange)
            else ParseUint_loop cs n1))"

definition ParseUint :: "string \<Rightarrow> nat \<times> num_error option" where
  "ParseUint s = (if s = [] then (0, Some ErrSyntax) else ParseUint_loop s 0)"

text \<open>\<^verbatim>\<open>strconv.ParseInt(s, 10, 0)\<close>: an optional sign, then \<^verbatim>\<open>ParseUint\<close>, then the range
  check against \<open>2 ^ (intSize - 1)\<close>.\<close>

definition ParseInt :: "string \<Rightarrow> int \<times> num_error option" where
  "ParseInt s =
     (if s = [] then (0, Some ErrSyntax)
      else
        (let neg = (hd s = CHR ''-'');
             s1 = (if hd s = CHR ''+'' \<or> hd s = CHR ''-'' then tl s else s);
             (un, err) = ParseUint s1;
             cutoff = 2 ^ (intSize - 1)
         in if err = Some ErrSyntax then (0, Some ErrSyntax)
            else if \<not> neg \<and> cutoff \<le> un then (int cutoff - 1, Some ErrRange)
            else if neg \<and> cutoff < un then (- int cutoff, Some ErrRange)
            else (if neg then - int un else int un, None)))"

definition Atoi :: "string \<Rightarrow> int \<times> num_error option" where
  "Atoi s = ParseInt s"

text \<open>\<^verbatim>\<open>strconv.Itoa\<close>: the decimal digits, most significant first, after a minus sign
  for a negative number.\<close>

function digits10 :: "nat \<Rightarrow> string" where
  "digits10 n =
     (if n < 10 then [char_of (48 + n)]
      else digits10 (n div 10) @ [char_of (48 + n mod 10)])"
  by pat_completeness auto
termination
  by (relation "measure (\<lambda>n. n)") auto

declare digits10.simps [simp del]

definition Itoa :: "int \<Rightarrow> string" where
  "Itoa i = (if i < 0 then CHR ''-'' # digits10 (nat (- i)) else digits10 (nat i))"

subsubsection \<open>strings\<close>

text \<open>\<^verbatim>\<open>strings.Split(s, sep)\<close> for a separator of one byte: the pieces between the
  separators, never an empty list.\<close>

fun Split :: "string \<Rightarrow> char \<Rightarrow> string list" where
  "Split [] sep = [[]]"
| "Split (c # cs) sep =
     (if c = sep then [] # Split cs sep
      else (case Split cs sep of
              [] \<Rightarrow> [[c]]
            | w # ws \<Rightarrow> (c # w) # ws))"

definition TrimSuffix :: "string \<Rightarrow> string \<Rightarrow> string" where
  "TrimSuffix s suf = (if suffix suf s then take (length s - length suf) s else s)"

text \<open>
  \<^verbatim>\<open>strings.TrimSpace\<close> removes the leading and then the trailing white-space runes
  (\<^verbatim>\<open>unicode.IsSpace\<close>). On bytes these are the UTF-8 encodings below: the six ASCII
  ones, U+0085, U+00A0, U+1680, U+2000 to U+200A, U+2028, U+2029, U+202F, U+205F and
  U+3000. No encoding is a proper prefix or suffix of another, and a byte sequence that
  is not valid UTF-8 decodes to U+FFFD, which is not white space.
\<close>

definition spaceRunes :: "string list" where
  "spaceRunes =
     [[CHR 0x09], [CHR 0x0A], [CHR 0x0B], [CHR 0x0C], [CHR 0x0D], [CHR 0x20],
      [CHR 0xC2, CHR 0x85], [CHR 0xC2, CHR 0xA0],
      [CHR 0xE1, CHR 0x9A, CHR 0x80],
      [CHR 0xE2, CHR 0x80, CHR 0x80], [CHR 0xE2, CHR 0x80, CHR 0x81],
      [CHR 0xE2, CHR 0x80, CHR 0x82], [CHR 0xE2, CHR 0x80, CHR 0x83],
      [CHR 0xE2, CHR 0x80, CHR 0x84], [CHR 0xE2, CHR 0x80, CHR 0x85],
      [CHR 0xE2, CHR 0x80, CHR 0x86], [CHR 0xE2, CHR 0x80, CHR 0x87],
      [CHR 0xE2, CHR 0x80, CHR 0x88], [CHR 0xE2, CHR 0x80, CHR 0x89],
      [CHR 0xE2, CHR 0x80, CHR 0x8A],
      [CHR 0xE2, CHR 0x80, CHR 0xA8], [CHR 0xE2, CHR 0x80, CHR 0xA9],
      [CHR 0xE2, CHR 0x80, CHR 0xAF],
      [CHR 0xE2, CHR 0x81, CHR 0x9F],
      [CHR 0xE3, CHR 0x80, CHR 0x80]]"

definition leadingSpace :: "string \<Rightarrow> nat" where
  "leadingSpace s = (case find (\<lambda>e. prefix e s) spaceRunes of None \<Rightarrow> 0 | Some e \<Rightarrow> length e)"

definition trailingSpace :: "string \<Rightarrow> nat" where
  "trailingSpace s = (case find (\<lambda>e. suffix e s) spaceRunes of None \<Rightarrow> 0 | Some e \<Rightarrow> length e)"

lemma leadingSpace_le: "leadingSpace s \<le> length s"
  by (auto simp: leadingSpace_def find_Some_iff prefix_length_le split: option.splits)

lemma trailingSpace_le: "trailingSpace s \<le> length s"
  by (auto simp: trailingSpace_def find_Some_iff suffix_length_le split: option.splits)

function TrimLeftSpace :: "string \<Rightarrow> string" where
  "TrimLeftSpace s =
     (if leadingSpace s = 0 then s else TrimLeftSpace (drop (leadingSpace s) s))"
  by pat_completeness auto
termination
proof (relation "measure length")
  fix s :: string
  assume "leadingSpace s \<noteq> 0"
  moreover have "leadingSpace s \<le> length s" by (rule leadingSpace_le)
  ultimately show "(drop (leadingSpace s) s, s) \<in> measure length" by simp
qed simp

function TrimRightSpace :: "string \<Rightarrow> string" where
  "TrimRightSpace s =
     (if trailingSpace s = 0 then s
      else TrimRightSpace (take (length s - trailingSpace s) s))"
  by pat_completeness auto
termination
proof (relation "measure length")
  fix s :: string
  assume "trailingSpace s \<noteq> 0"
  moreover have "trailingSpace s \<le> length s" by (rule trailingSpace_le)
  ultimately show "(take (length s - trailingSpace s) s, s) \<in> measure length" by simp
qed simp

declare TrimLeftSpace.simps [simp del] TrimRightSpace.simps [simp del]

definition TrimSpace :: "string \<Rightarrow> string" where
  "TrimSpace s = TrimRightSpace (TrimLeftSpace s)"

subsubsection \<open>bufio\<close>

text \<open>
  \<^verbatim>\<open>bufio.Scanner\<close> with \<^verbatim>\<open>bufio.ScanLines\<close>: the tokens that successive calls of
  \<^verbatim>\<open>Scan\<close> deliver. A token is the text up to the next newline (or up to the end of
  the data for a last line without one), without a trailing carriage return. The scanner's
  buffer holds at most \<^verbatim>\<open>MaxScanTokenSize\<close> bytes: at a line that does not fit, \<^verbatim>\<open>Scan\<close>
  returns false and the loop over the scanner ends. A read error ends the data as the end
  of the file does, since the collector never looks at \<^verbatim>\<open>scanner.Err()\<close>.
\<close>

definition MaxScanTokenSize :: nat where
  "MaxScanTokenSize = 64 * 1024"

definition dropCR :: "string \<Rightarrow> string" where
  "dropCR data = (if data \<noteq> [] \<and> last data = CHR 0x0D then butlast data else data)"

function ScanLines :: "string \<Rightarrow> string list" where
  "ScanLines data =
     (if data = [] then []
      else
        (let line = takeWhile (\<lambda>c. c \<noteq> CHR 0x0A) data;
             rest = dropWhile (\<lambda>c. c \<noteq> CHR 0x0A) data
         in if MaxScanTokenSize \<le> length line then []
            else dropCR line # (if rest = [] then [] else ScanLines (tl rest))))"
  by pat_completeness auto
termination
proof (relation "measure length")
  fix data :: string and line rest :: string
  assume d: "data \<noteq> []" and r: "rest = dropWhile (\<lambda>c. c \<noteq> CHR 0x0A) data" and ne: "rest \<noteq> []"
  have "length rest \<le> length data" unfolding r by (rule length_dropWhile_le)
  with ne show "(tl rest, data) \<in> measure length" by (cases rest) auto
qed simp

declare ScanLines.simps [simp del]

subsection \<open>The file system\<close>

text \<open>
  \<open>fs path = Some bytes\<close> when the file opens, \<open>bytes\<close> being what a reader of it
  delivers before the end of the file or a read error; \<open>fs path = None\<close> when
  \<^verbatim>\<open>ioutil.ReadFile\<close> or \<^verbatim>\<open>os.Open\<close> returns an error.
\<close>

type_synonym filesystem = "string \<Rightarrow> string option"

subsection \<open>parseProcessStats\<close>

type_synonym stats = "int \<rightharpoonup> int"

text \<open>
  The body of the scanner loop, for one line \<open>text\<close>. \<^verbatim>\<open>procStats[1]\<close> panics when the
  line has no colon, \<^verbatim>\<open>data[1:]\<close> panics when the second piece is empty, and the result
  of \<^verbatim>\<open>strconv.Atoi\<close> is assigned to \<^verbatim>\<open>stats[1]\<close> before the error is looked at.
\<close>

definition parseLine :: "int \<Rightarrow> string \<Rightarrow> stats \<times> log_entry list \<Rightarrow> go_panic + stats \<times> log_entry list" where
  "parseLine pid text st =
     (let procStats = Split text (CHR 0x3A)
      in if procStats ! 0 = ''VmRSS'' then
           (if length procStats \<le> 1 then Inl IndexOutOfRange
            else
              (let data = procStats ! 1
               in if length data < 1 then Inl SliceBoundsOutOfRange
                  else
                    (let data = drop 1 data;
                         data = TrimSuffix data ''kB'';
                         data = TrimSpace data;
                         (v, err) = Atoi data;
                         stats = (fst st)(1 \<mapsto> v)
                     in if err \<noteq> None then Inr (stats, snd st @ [LogRssParseFailed pid])
                        else Inr (stats, snd st))))
         else Inr st)"

fun scanLoop :: "int \<Rightarrow> string list \<Rightarrow> stats \<times> log_entry list \<Rightarrow> go_panic + stats \<times> log_entry list" where
  "scanLoop pid [] st = Inr st"
| "scanLoop pid (text # more) st =
     (case parseLine pid text st of
        Inl p \<Rightarrow> Inl p
      | Inr st' \<Rightarrow> scanLoop pid more st')"

text \<open>The result is the panic, or the record, the error return and the log entries written.
  The only \<^verbatim>\<open>return\<close> of the function is \<^verbatim>\<open>return stats, nil\<close>.\<close>

definition parseProcessStats :: "string \<Rightarrow> int \<Rightarrow> go_panic + stats \<times> go_error option \<times> log_entry list" where
  "parseProcessStats r pid =
     (case scanLoop pid (ScanLines r) (Map.empty(0 \<mapsto> pid), []) of
        Inl p \<Rightarrow> Inl p
      | Inr (stats, lg) \<Rightarrow> Inr (stats, None, lg))"

subsection \<open>getProcessStats\<close>

text \<open>
  \<^verbatim>\<open>procFilePath\<close> is defined in another file of the collector package and is a parameter
  here. The loop ranges over a Go map, whose iteration order the language leaves open:
  the function takes the entries of \<^verbatim>\<open>procPID\<close> as the list \<open>kvs\<close>, in the order in
  which the loop visits them (\<open>rangeOrder\<close>). The deferred \<^verbatim>\<open>Close\<close> calls run when the
  function returns and change no result.
\<close>

definition rangeOrder :: "(string \<rightharpoonup> int) \<Rightarrow> (string \<times> int) list \<Rightarrow> bool" where
  "rangeOrder procPID kvs = (distinct (map fst kvs) \<and> map_of kvs = procPID)"

definition statusFile :: "(string \<Rightarrow> string) \<Rightarrow> int \<Rightarrow> string" where
  "statusFile procFilePath pid = procFilePath (Itoa pid) @ ''/status''"

type_synonym procStats = "string \<rightharpoonup> stats"

fun getProcessStats_loop ::
  "(string \<Rightarrow> string) \<Rightarrow> filesystem \<Rightarrow> (string \<times> int) list \<Rightarrow> procStats \<times> log_entry list
     \<Rightarrow> go_panic + procStats \<times> go_error option \<times> log_entry list" where
  "getProcessStats_loop procFilePath fs [] st = Inr (fst st, None, snd st)"
| "getProcessStats_loop procFilePath fs ((procName, pid) # more) st =
     (let filename = statusFile procFilePath pid
      in case fs filename of
           None \<Rightarrow> Inr (fst st, Some (PathError filename), snd st @ [LogOpenFailed filename])
         | Some procFile \<Rightarrow>
             (case parseProcessStats procFile pid of
                Inl p \<Rightarrow> Inl p
              | Inr (stats, err, lg) \<Rightarrow>
                  getProcessStats_loop procFilePath fs more
                    ((fst st)(procName \<mapsto> stats),
                     snd st @ lg @ (if err \<noteq> None then [LogParseStatsFailed procName] else []))))"

definition getProcessStats ::
  "(string \<Rightarrow> string) \<Rightarrow> filesystem \<Rightarrow> (string \<times> int) list
     \<Rightarrow> go_panic + procStats \<times> go_error option \<times> log_entry list" where
  "getProcessStats procFilePath fs kvs = getProcessStats_loop procFilePath fs kvs (Map.empty, [])"

subsection \<open>The PID resolver: the first loop of Update\<close>

definition pidFile :: "string \<Rightarrow> string" where
  "pidFile procName = ''/var/run/'' @ procName @ ''.pid''"

text \<open>
  \<^verbatim>\<open>pidBytes[:len(pidBytes)-1]\<close> panics on an empty file. After a failed
  \<^verbatim>\<open>strconv.Atoi\<close> the loop body logs and goes on to the assignment
  \<^verbatim>\<open>procPID[procName] = int(pid)\<close>: only the unreadable file has a \<^verbatim>\<open>continue\<close>.
\<close>

fun resolvePIDs ::
  "filesystem \<Rightarrow> string list \<Rightarrow> (string \<rightharpoonup> int) \<times> log_entry list
     \<Rightarrow> go_panic + (string \<rightharpoonup> int) \<times> log_entry list" where
  "resolvePIDs fs [] st = Inr st"
| "resolvePIDs fs (procName # more) st =
     (case fs (pidFile procName) of
        None \<Rightarrow> resolvePIDs fs more st
      | Some pidBytes \<Rightarrow>
          (if length pidBytes < 1 then Inl SliceBoundsOutOfRange
           else
             (let pidStr = take (length pidBytes - 1) pidBytes;
                  (pid, err) = Atoi pidStr;
                  lg = (case err of
                          None \<Rightarrow> snd st
                        | Some e \<Rightarrow> snd st @ [LogPidConvertFailed procName e])
              in resolvePIDs fs more ((fst st)(procName \<mapsto> pid), lg))))"

text \<open>The mapping \<^verbatim>\<open>procPID\<close> that \<^verbatim>\<open>Update\<close> hands to \<^verbatim>\<open>getProcessStats\<close>.\<close>

definition Update_procPID :: "filesystem \<Rightarrow> string list \<Rightarrow> go_panic + (string \<rightharpoonup> int) \<times> log_entry list" where
  "Update_procPID fs registeredProcessesList = resolvePIDs fs registeredProcessesList (Map.empty, [])"

subsection \<open>Vocabulary of the specification\<close>

text \<open>
  A \<^emph>\<open>VmRSS field line\<close> is a line whose text before the first colon is \<^verbatim>\<open>VmRSS\<close>; its
  \<^emph>\<open>numeric remainder\<close> is what the parser hands to \<^verbatim>\<open>strconv.Atoi\<close>; the line is
  \<^emph>\<open>well formed\<close> when the parser reaches \<^verbatim>\<open>Atoi\<close> on it and \<^verbatim>\<open>Atoi\<close> reports no error.
\<close>

definition isVmRSS :: "string \<Rightarrow> bool" where
  "isVmRSS l = (Split l (CHR 0x3A) ! 0 = ''VmRSS'')"

definition rssRemainder :: "string \<Rightarrow> string" where
  "rssRemainder l = TrimSpace (TrimSuffix (drop 1 (Split l (CHR 0x3A) ! 1)) ''kB'')"

definition panicLine :: "string \<Rightarrow> bool" where
  "panicLine l = (isVmRSS l \<and> (length (Split l (CHR 0x3A)) \<le> 1 \<or> Split l (CHR 0x3A) ! 1 = []))"

definition wellFormedRSS :: "string \<Rightarrow> bool" where
  "wellFormedRSS l = (isVmRSS l \<and> \<not> panicLine l \<and> snd (Atoi (rssRemainder l)) = None)"

text \<open>The log entries that the scanner loop writes for the lines \<open>ls\<close>: one for every
  VmRSS field line on which \<^verbatim>\<open>Atoi\<close> reports an error.\<close>

definition rssLog :: "int \<Rightarrow> string list \<Rightarrow> log_entry list" where
  "rssLog pid ls =
     map (\<lambda>l. LogRssParseFailed pid)
       (filter (\<lambda>l. isVmRSS l \<and> snd (Atoi (rssRemainder l)) \<noteq> None) ls)"

section \<open>Evaluation on concrete inputs\<close>

lemma TrimLeftSpace_Nil: "TrimLeftSpace [] = []"
  by (simp add: TrimLeftSpace.simps leadingSpace_def spaceRunes_def)

lemma TrimLeftSpace_Cons:
  "TrimLeftSpace (c # cs) =
     (if leadingSpace (c # cs) = 0 then c # cs
      else TrimLeftSpace (drop (leadingSpace (c # cs)) (c # cs)))"
  by (subst TrimLeftSpace.simps) simp

lemma TrimRightSpace_Nil: "TrimRightSpace [] = []"
  by (simp add: TrimRightSpace.simps trailingSpace_def spaceRunes_def)

lemma TrimRightSpace_Cons:
  "TrimRightSpace (c # cs) =
     (if trailingSpace (c # cs) = 0 then c # cs
      else TrimRightSpace (take (length (c # cs) - trailingSpace (c # cs)) (c # cs)))"
  by (subst TrimRightSpace.simps) simp

lemma ScanLines_Nil: "ScanLines [] = []"
  by (simp add: ScanLines.simps)

lemma ScanLines_Cons:
  "ScanLines (c # cs) =
     (if MaxScanTokenSize \<le> length (takeWhile (\<lambda>c. c \<noteq> CHR 0x0A) (c # cs)) then []
      else dropCR (takeWhile (\<lambda>c. c \<noteq> CHR 0x0A) (c # cs)) #
           (if dropWhile (\<lambda>c. c \<noteq> CHR 0x0A) (c # cs) = [] then []
            else ScanLines (tl (dropWhile (\<lambda>c. c \<noteq> CHR 0x0A) (c # cs)))))"
  by (subst ScanLines.simps) (simp add: Let_def)

lemmas strconv_eval = Atoi_def ParseInt_def ParseUint_def isDigit_def digitVal_def maxUint64_def
  intSize_def

lemmas strings_eval = TrimSpace_def TrimLeftSpace_Nil TrimLeftSpace_Cons TrimRightSpace_Nil
  TrimRightSpace_Cons leadingSpace_def trailingSpace_def spaceRunes_def TrimSuffix_def suffix_Cons

lemmas bufio_eval = ScanLines_Nil ScanLines_Cons MaxScanTokenSize_def dropCR_def

lemmas parse_eval = parseProcessStats_def parseLine_def bufio_eval strings_eval strconv_eval

section \<open>The status parser\<close>

subsection \<open>Slot 0 is the PID argument\<close>

lemma parseLine_slot0: "parseLine pid l st = Inr st' \<Longrightarrow> fst st' 0 = fst st 0"
  by (auto simp: parseLine_def Let_def split: if_splits prod.splits)

lemma scanLoop_slot0: "scanLoop pid ls st = Inr st' \<Longrightarrow> fst st' 0 = fst st 0"
proof (induction ls arbitrary: st)
  case Nil
  then show ?case by simp
next
  case (Cons l ls)
  then show ?case
    by (auto split: sum.splits dest: parseLine_slot0)
qed

text \<open>
  C4. Whenever the status parser returns a record, slot 0 of the record is the PID that
  was passed in, whatever the status text says: the loop only ever assigns slot 1.
\<close>

theorem parseProcessStats_slot0:
  "parseProcessStats r pid = Inr (stats, err, lg) \<Longrightarrow> stats 0 = Some pid"
  by (auto simp: parseProcessStats_def split: sum.splits prod.splits dest: scanLoop_slot0)

text \<open>A status text that names another PID and a resident size: slot 0 is still 123.\<close>

theorem parseProcessStats_slot0_witness:
  "parseProcessStats (''Pid:'' @ [CHR 0x09] @ ''999'' @ [CHR 0x0A] @
                      ''VmRSS:'' @ [CHR 0x09] @ ''555 kB'' @ [CHR 0x0A]) 123
     = Inr ([0 \<mapsto> 123, 1 \<mapsto> 555], None, [])
   \<and> [0 \<mapsto> 123, 1 \<mapsto> 555 :: int] (0 :: int) = Some 123"
proof -
  have e: "parseProcessStats (''Pid:'' @ [CHR 0x09] @ ''999'' @ [CHR 0x0A] @
                      ''VmRSS:'' @ [CHR 0x09] @ ''555 kB'' @ [CHR 0x0A]) 123
     = Inr ([0 \<mapsto> 123, 1 \<mapsto> 555], None, [])"
    by (simp add: parse_eval)
  from parseProcessStats_slot0 [OF e] e show ?thesis by simp
qed

subsection \<open>The error return\<close>

text \<open>
  C7. Whenever the status parser returns, its error return is nil: the function has the
  single statement \<^verbatim>\<open>return stats, nil\<close>, and a memory value that fails to parse is
  logged inside the loop and never reaches the caller.
\<close>

theorem parseProcessStats_error_nil:
  "parseProcessStats r pid = Inr (stats, err, lg) \<Longrightarrow> err = None"
  by (auto simp: parseProcessStats_def split: sum.splits prod.splits)

text \<open>A memory line that does not parse, followed by one that does: the failure is logged,
  the scan goes on to the next line, and the error return is nil.\<close>

theorem parseProcessStats_error_nil_witness:
  "parseProcessStats (''VmRSS:'' @ [CHR 0x09] @ ''lots kB'' @ [CHR 0x0A] @
                      ''VmRSS:'' @ [CHR 0x09] @ ''42 kB'' @ [CHR 0x0A]) 7
     = Inr ([0 \<mapsto> 7, 1 \<mapsto> 42], None, [LogRssParseFailed 7])
   \<and> (None :: go_error option) = None"
proof -
  have e: "parseProcessStats (''VmRSS:'' @ [CHR 0x09] @ ''lots kB'' @ [CHR 0x0A] @
                      ''VmRSS:'' @ [CHR 0x09] @ ''42 kB'' @ [CHR 0x0A]) 7
     = Inr ([0 \<mapsto> 7, 1 \<mapsto> 42], None, [LogRssParseFailed 7])"
    by (simp add: parse_eval)
  from parseProcessStats_error_nil [OF e] e show ?thesis by simp
qed

subsection \<open>A memory value that fails to parse\<close>

text \<open>
  C2. The claim says that slot 1 stays unset when the memory line does not parse. The
  code assigns the result of \<^verbatim>\<open>strconv.Atoi\<close> to \<^verbatim>\<open>stats[1]\<close> before it looks at the
  error, so the record holds the value \<^verbatim>\<open>Atoi\<close> returns with its error: for the line
  \<^verbatim>\<open>VmRSS:<TAB>abc kB\<close> slot 1 is present and holds 0.
\<close>

theorem parseProcessStats_unparsed_value_stored:
  "parseProcessStats (''Name:'' @ [CHR 0x09] @ ''hekad'' @ [CHR 0x0A] @
                      ''VmRSS:'' @ [CHR 0x09] @ ''abc kB'' @ [CHR 0x0A]) 123
     = Inr ([0 \<mapsto> 123, 1 \<mapsto> 0], None, [LogRssParseFailed 123])"
  by (simp add: parse_eval)

section \<open>The PID resolver\<close>

subsection \<open>A PID file that does not parse\<close>

text \<open>
  C1. The claim says that a name whose PID file does not parse is skipped. The code logs
  the failure and then executes \<^verbatim>\<open>procPID[procName] = int(pid)\<close> all the same: with
  \<^verbatim>\<open>/var/run/hekad.pid\<close> holding \<^verbatim>\<open>abc\<close> and a newline, no file for \<^verbatim>\<open>collectd\<close>, and
  \<^verbatim>\<open>/var/run/nginx.pid\<close> holding \<^verbatim>\<open>456\<close> and a newline, the mapping has two entries,
  one of them \<^verbatim>\<open>hekad\<close> with PID 0, although one PID file only is valid.
\<close>

theorem Update_procPID_unparsed_pid_inserted:
  "Update_procPID [pidFile ''hekad'' \<mapsto> ''abc'' @ [CHR 0x0A],
                   pidFile ''nginx'' \<mapsto> ''456'' @ [CHR 0x0A]]
                  [''hekad'', ''collectd'', ''nginx'']
     = Inr ([''hekad'' \<mapsto> 0, ''nginx'' \<mapsto> 456], [LogPidConvertFailed ''hekad'' ErrSyntax])"
  by (simp add: Update_procPID_def pidFile_def strconv_eval)

section \<open>Panics of the status parser\<close>

text \<open>The loop body panics on exactly the lines that \<open>panicLine\<close> describes, and the parser
  returns exactly when no line of the stream is one of them.\<close>

lemma parseLine_panic_iff: "(\<exists>p. parseLine pid l st = Inl p) \<longleftrightarrow> panicLine l"
  by (auto simp: parseLine_def panicLine_def isVmRSS_def Let_def split: if_splits prod.splits)

lemma scanLoop_panic:
  "\<exists>l \<in> set ls. panicLine l \<Longrightarrow> \<exists>p. scanLoop pid ls st = Inl p"
proof (induction ls arbitrary: st)
  case Nil
  then show ?case by simp
next
  case (Cons l ls)
  show ?case
  proof (cases "parseLine pid l st")
    case (Inl p)
    then show ?thesis by simp
  next
    case (Inr st')
    then have "\<not> panicLine l" using parseLine_panic_iff [of pid l st] by auto
    with Cons.prems have "\<exists>l \<in> set ls. panicLine l" by auto
    from Cons.IH [OF this] Inr show ?thesis by simp
  qed
qed

lemma scanLoop_total:
  "\<forall>l \<in> set ls. \<not> panicLine l \<Longrightarrow> \<exists>st'. scanLoop pid ls st = Inr st'"
proof (induction ls arbitrary: st)
  case Nil
  then show ?case by simp
next
  case (Cons l ls)
  then have "\<not> panicLine l" by simp
  then obtain st' where s: "parseLine pid l st = Inr st'"
    using parseLine_panic_iff [of pid l st] by (cases "parseLine pid l st") auto
  from Cons have "\<exists>st''. scanLoop pid ls st' = Inr st''" by simp
  with s show ?case by simp
qed

lemma panicLine_bare: "panicLine ''VmRSS''" "panicLine ''VmRSS:''"
  by (simp_all add: panicLine_def isVmRSS_def)

text \<open>
  C9, as amended. The parser needs every VmRSS field line that the scanner delivers to
  have a colon and at least one byte after it: when one of the lines that the scanner
  delivers (the lines of the stream before the first line of 65536 bytes or more) is
  exactly \<^verbatim>\<open>VmRSS\<close> (no colon, so \<^verbatim>\<open>procStats[1]\<close> is out of range) or exactly
  \<^verbatim>\<open>VmRSS:\<close> (nothing after the colon, so \<^verbatim>\<open>data[1:]\<close> is out of range), the parser
  panics and returns nothing. The claim says so of every stream that contains such a
  line; behind a line that does not fit the scanner's buffer the line is never reached.
\<close>

theorem parseProcessStats_panics:
  "l \<in> set (ScanLines r) \<Longrightarrow> l = ''VmRSS'' \<or> l = ''VmRSS:'' \<Longrightarrow> \<exists>p. parseProcessStats r pid = Inl p"
proof -
  assume "l \<in> set (ScanLines r)" and "l = ''VmRSS'' \<or> l = ''VmRSS:''"
  then have "\<exists>l \<in> set (ScanLines r). panicLine l"
    using panicLine_bare by auto
  from scanLoop_panic [OF this] obtain p
    where "scanLoop pid (ScanLines r) (Map.empty(0 \<mapsto> pid), []) = Inl p" by blast
  then show ?thesis by (simp add: parseProcessStats_def)
qed

text \<open>Both lines, inside a longer status text and alone; the first is the index panic, the
  second the slice panic.\<close>

theorem parseProcessStats_panics_witness:
  "''VmRSS'' \<in> set (ScanLines (''Name:'' @ [CHR 0x09] @ ''hekad'' @ [CHR 0x0A] @ ''VmRSS'' @ [CHR 0x0A]))
   \<and> ''VmRSS:'' \<in> set (ScanLines (''VmRSS:'' @ [CHR 0x0D, CHR 0x0A] @ ''Threads:'' @ [CHR 0x09] @ ''1''))
   \<and> (\<exists>p. parseProcessStats (''Name:'' @ [CHR 0x09] @ ''hekad'' @ [CHR 0x0A] @ ''VmRSS'' @ [CHR 0x0A]) 123 = Inl p)
   \<and> (\<exists>p. parseProcessStats (''VmRSS:'' @ [CHR 0x0D, CHR 0x0A] @ ''Threads:'' @ [CHR 0x09] @ ''1'') 123 = Inl p)
   \<and> parseProcessStats ''VmRSS'' 123 = Inl IndexOutOfRange
   \<and> parseProcessStats ''VmRSS:'' 123 = Inl SliceBoundsOutOfRange"
proof -
  have a: "''VmRSS'' \<in> set (ScanLines (''Name:'' @ [CHR 0x09] @ ''hekad'' @ [CHR 0x0A] @ ''VmRSS'' @ [CHR 0x0A]))"
    by (simp add: bufio_eval)
  have b: "''VmRSS:'' \<in> set (ScanLines (''VmRSS:'' @ [CHR 0x0D, CHR 0x0A] @ ''Threads:'' @ [CHR 0x09] @ ''1''))"
    by (simp add: bufio_eval)
  have c: "parseProcessStats ''VmRSS'' 123 = Inl IndexOutOfRange"
    by (simp add: parse_eval)
  have d: "parseProcessStats ''VmRSS:'' 123 = Inl SliceBoundsOutOfRange"
    by (simp add: parse_eval)
  from a b c d parseProcessStats_panics [OF a, of 123] parseProcessStats_panics [OF b, of 123]
  show ?thesis by simp
qed

section \<open>Panics and results of the PID resolver\<close>

lemma resolvePIDs_panic:
  "n \<in> set names \<Longrightarrow> fs (pidFile n) = Some [] \<Longrightarrow> resolvePIDs fs names st = Inl SliceBoundsOutOfRange"
proof (induction names arbitrary: st)
  case Nil
  then show ?case by simp
next
  case (Cons a names)
  show ?case
  proof (cases "fs (pidFile a)")
    case None
    with Cons.prems have "n \<in> set names" by auto
    from Cons.IH [OF this Cons.prems(2), of st] None show ?thesis by simp
  next
    case (Some b)
    show ?thesis
    proof (cases "b = []")
      case True
      with Some show ?thesis by simp
    next
      case False
      with Some Cons.prems have "n \<in> set names" by auto
      from Cons.IH [OF this Cons.prems(2)] Some False show ?thesis
        by (simp add: Let_def split: prod.splits)
    qed
  qed
qed

text \<open>
  C10. The resolver needs every readable PID file to hold at least one byte: when the PID
  file of a configured name is readable and empty, \<^verbatim>\<open>pidBytes[:len(pidBytes)-1]\<close> is
  \<^verbatim>\<open>pidBytes[:-1]\<close> and the resolver panics; the process is not skipped.
\<close>

theorem Update_procPID_empty_file_panics:
  "procName \<in> set names \<Longrightarrow> fs (pidFile procName) = Some [] \<Longrightarrow>
     Update_procPID fs names = Inl SliceBoundsOutOfRange"
  unfolding Update_procPID_def by (rule resolvePIDs_panic)

theorem Update_procPID_empty_file_panics_witness:
  "''hekad'' \<in> set [''nginx'', ''hekad'']
   \<and> [pidFile ''nginx'' \<mapsto> ''456'' @ [CHR 0x0A], pidFile ''hekad'' \<mapsto> []] (pidFile ''hekad'') = Some []
   \<and> Update_procPID [pidFile ''nginx'' \<mapsto> ''456'' @ [CHR 0x0A], pidFile ''hekad'' \<mapsto> []] [''nginx'', ''hekad'']
       = Inl SliceBoundsOutOfRange"
proof -
  have a: "''hekad'' \<in> set [''nginx'', ''hekad'']" by simp
  have b: "[pidFile ''nginx'' \<mapsto> ''456'' @ [CHR 0x0A], pidFile ''hekad'' \<mapsto> []] (pidFile ''hekad'') = Some []"
    by simp
  from a b Update_procPID_empty_file_panics
    [where fs = "[pidFile ''nginx'' \<mapsto> ''456'' @ [CHR 0x0A], pidFile ''hekad'' \<mapsto> []]", OF a b]
  show ?thesis by blast
qed

lemma resolvePIDs_char:
  "\<forall>n \<in> set names. fs (pidFile n) \<noteq> Some [] \<Longrightarrow>
   \<exists>m lg. resolvePIDs fs names st = Inr (m, lg) \<and>
     (\<forall>n. m n = (if n \<in> set names
                 then (case fs (pidFile n) of None \<Rightarrow> fst st n
                       | Some b \<Rightarrow> Some (fst (Atoi (butlast b))))
                 else fst st n))"
proof (induction names arbitrary: st)
  case Nil
  then show ?case by (cases st) simp
next
  case (Cons a names)
  then have ne: "fs (pidFile a) \<noteq> Some []" and rest: "\<forall>n \<in> set names. fs (pidFile n) \<noteq> Some []"
    by simp_all
  show ?case
  proof (cases "fs (pidFile a)")
    case None
    from Cons.IH [OF rest, of st] obtain m lg where
      r: "resolvePIDs fs names st = Inr (m, lg)" and
      c: "\<forall>n. m n = (if n \<in> set names
                 then (case fs (pidFile n) of None \<Rightarrow> fst st n
                       | Some b \<Rightarrow> Some (fst (Atoi (butlast b))))
                 else fst st n)" by blast
    from None r have "resolvePIDs fs (a # names) st = Inr (m, lg)" by simp
    moreover from c None have "\<forall>n. m n = (if n \<in> set (a # names)
                 then (case fs (pidFile n) of None \<Rightarrow> fst st n
                       | Some b \<Rightarrow> Some (fst (Atoi (butlast b))))
                 else fst st n)" by auto
    ultimately show ?thesis by blast
  next
    case (Some b)
    with ne have bne: "b \<noteq> []" by simp
    define st' where "st' = ((fst st)(a \<mapsto> fst (Atoi (butlast b))),
       (case snd (Atoi (butlast b)) of None \<Rightarrow> snd st | Some e \<Rightarrow> snd st @ [LogPidConvertFailed a e]))"
    have step: "resolvePIDs fs (a # names) st = resolvePIDs fs names st'"
      using Some bne by (simp add: st'_def Let_def butlast_conv_take split: prod.splits)
    from Cons.IH [OF rest, of st'] obtain m lg where
      r: "resolvePIDs fs names st' = Inr (m, lg)" and
      c: "\<forall>n. m n = (if n \<in> set names
                 then (case fs (pidFile n) of None \<Rightarrow> fst st' n
                       | Some b \<Rightarrow> Some (fst (Atoi (butlast b))))
                 else fst st' n)" by blast
    have "\<forall>n. m n = (if n \<in> set (a # names)
                 then (case fs (pidFile n) of None \<Rightarrow> fst st n
                       | Some b \<Rightarrow> Some (fst (Atoi (butlast b))))
                 else fst st n)"
    proof
      fix n
      show "m n = (if n \<in> set (a # names)
                 then (case fs (pidFile n) of None \<Rightarrow> fst st n
                       | Some b \<Rightarrow> Some (fst (Atoi (butlast b))))
                 else fst st n)"
        using c [rule_format, of n] Some by (auto simp: st'_def split: option.splits)
    qed
    with step r show ?thesis by simp
  qed
qed

text \<open>
  C8. When no readable PID file is empty, the resolver returns, and the mapping holds, for
  every configured name whose PID file is readable, the integer that \<^verbatim>\<open>strconv.Atoi\<close>
  gives for the file content without its last byte (\<open>butlast\<close>); names that are not
  configured or whose file cannot be read have no entry.
\<close>

theorem Update_procPID_strips_one_byte:
  assumes "\<forall>n \<in> set names. fs (pidFile n) \<noteq> Some []"
  shows "\<exists>m lg. Update_procPID fs names = Inr (m, lg) \<and>
     (\<forall>n. m n = (if n \<in> set names
                 then map_option (\<lambda>pidBytes. fst (Atoi (butlast pidBytes))) (fs (pidFile n))
                 else None))"
proof -
  from resolvePIDs_char [OF assms, of "(Map.empty, [])"] obtain m lg where
    r: "resolvePIDs fs names (Map.empty, []) = Inr (m, lg)" and
    c: "\<forall>n. m n = (if n \<in> set names
                 then (case fs (pidFile n) of None \<Rightarrow> fst (Map.empty :: string \<rightharpoonup> int, [] :: log_entry list) n
                       | Some b \<Rightarrow> Some (fst (Atoi (butlast b))))
                 else fst (Map.empty :: string \<rightharpoonup> int, [] :: log_entry list) n)" by blast
  from c have "\<forall>n. m n = (if n \<in> set names
                 then map_option (\<lambda>pidBytes. fst (Atoi (butlast pidBytes))) (fs (pidFile n))
                 else None)"
    by (auto split: option.splits)
  with r show ?thesis by (auto simp: Update_procPID_def)
qed

text \<open>The PID file of \<^verbatim>\<open>hekad\<close> holds \<^verbatim>\<open>456\<close> and one newline: the name resolves to 456.\<close>

theorem Update_procPID_strips_one_byte_witness:
  "[pidFile ''hekad'' \<mapsto> ''456'' @ [CHR 0x0A]] (pidFile ''hekad'') \<noteq> Some []
   \<and> (\<exists>m lg. Update_procPID [pidFile ''hekad'' \<mapsto> ''456'' @ [CHR 0x0A]] [''hekad''] = Inr (m, lg)
          \<and> m ''hekad'' = Some 456)"
proof -
  have a: "\<forall>n \<in> set [''hekad'']. [pidFile ''hekad'' \<mapsto> ''456'' @ [CHR 0x0A]] (pidFile n) \<noteq> Some []"
    by simp
  have v: "fst (Atoi (butlast (''456'' @ [CHR 0x0A]))) = 456"
    by (simp add: strconv_eval)
  from Update_procPID_strips_one_byte [OF a] obtain m lg where
    r: "Update_procPID [pidFile ''hekad'' \<mapsto> ''456'' @ [CHR 0x0A]] [''hekad''] = Inr (m, lg)" and
    c: "\<forall>n. m n = (if n \<in> set [''hekad'']
                 then map_option (\<lambda>pidBytes. fst (Atoi (butlast pidBytes)))
                        ([pidFile ''hekad'' \<mapsto> ''456'' @ [CHR 0x0A]] (pidFile n))
                 else None)" by blast
  from c [rule_format, of "''hekad''"] v have "m ''hekad'' = Some 456" by simp
  with a r show ?thesis by auto
qed

section \<open>Facts about the library functions\<close>

subsection \<open>Decimal digits\<close>

lemma isDigit_char_of: "(k::nat) < 10 \<Longrightarrow> isDigit (char_of (48 + k))"
  by (simp add: isDigit_def)

lemma digitVal_char_of: "(k::nat) < 10 \<Longrightarrow> digitVal (char_of (48 + k)) = k"
  by (simp add: digitVal_def)

lemma digits10_ne: "digits10 n \<noteq> []"
  by (subst digits10.simps) simp

lemma digits10_isDigit: "c \<in> set (digits10 n) \<Longrightarrow> isDigit c"
proof (induction n rule: digits10.induct)
  case (1 n)
  show ?case
  proof (cases "n < 10")
    case True
    with "1.prems" have "c = char_of (48 + n)" by (subst (asm) digits10.simps) simp
    with True show ?thesis by (simp add: isDigit_char_of)
  next
    case False
    with "1.prems" have "c \<in> set (digits10 (n div 10)) \<or> c = char_of (48 + n mod 10)"
      by (subst (asm) digits10.simps) auto
    then show ?thesis
    proof
      assume "c \<in> set (digits10 (n div 10))"
      with False "1.IH" show ?thesis by simp
    next
      assume "c = char_of (48 + n mod 10)"
      then show ?thesis by (simp add: isDigit_char_of)
    qed
  qed
qed

lemma ParseUint_loop_append:
  "ParseUint_loop (xs @ ys) n =
     (case ParseUint_loop xs n of
        (m, None) \<Rightarrow> ParseUint_loop ys m
      | (m, Some e) \<Rightarrow> (m, Some e))"
  by (induction xs arbitrary: n) (simp_all add: Let_def)

lemma ParseUint_loop_digit:
  assumes "k < 10" and "m * 10 + k < 2 ^ 64"
  shows "ParseUint_loop [char_of (48 + k)] m = (m * 10 + k, None)"
proof -
  from assms have m: "m * 10 < 2 ^ 64" by simp
  have c: "\<not> maxUint64 div 10 + 1 \<le> m"
  proof
    assume "maxUint64 div 10 + 1 \<le> m"
    then have "(maxUint64 div 10 + 1) * 10 \<le> m * 10" by simp
    with m show False by (simp add: maxUint64_def)
  qed
  from assms m c show ?thesis
    by (simp add: isDigit_char_of digitVal_char_of Let_def maxUint64_def)
qed

lemma ParseUint_loop_digits10:
  "n < 2 ^ 64 \<Longrightarrow> ParseUint_loop (digits10 n) 0 = (n, None)"
proof (induction n rule: digits10.induct)
  case (1 n)
  show ?case
  proof (cases "n < 10")
    case True
    then have "digits10 n = [char_of (48 + n)]" by (subst digits10.simps) simp
    moreover from True "1.prems" have "ParseUint_loop [char_of (48 + n)] 0 = (0 * 10 + n, None)"
      by (intro ParseUint_loop_digit) simp_all
    ultimately show ?thesis by simp
  next
    case False
    then have d: "digits10 n = digits10 (n div 10) @ [char_of (48 + n mod 10)]"
      by (subst digits10.simps) simp
    from "1.prems" have "n div 10 < 2 ^ 64" by (simp add: div_less_dividend less_imp_le order.strict_trans1 [OF div_le_dividend])
    with False "1.IH" have ih: "ParseUint_loop (digits10 (n div 10)) 0 = (n div 10, None)" by simp
    have "ParseUint_loop [char_of (48 + n mod 10)] (n div 10) = (n div 10 * 10 + n mod 10, None)"
      using "1.prems" by (intro ParseUint_loop_digit) simp_all
    with d ih show ?thesis by (simp add: ParseUint_loop_append)
  qed
qed

lemma hd_digits10: "isDigit (hd (digits10 n))"
  using digits10_ne [of n] digits10_isDigit [of "hd (digits10 n)" n] by simp

lemma last_digits10: "isDigit (last (digits10 n))"
  using digits10_ne [of n] digits10_isDigit [of "last (digits10 n)" n] by simp

lemma isDigit_not_sign: "isDigit c \<Longrightarrow> c \<noteq> CHR ''-'' \<and> c \<noteq> CHR ''+''"
  by (auto simp: isDigit_def)

lemma Atoi_Itoa:
  assumes "- (2 ^ 63) \<le> N" and "N < 2 ^ 63"
  shows "Atoi (Itoa N) = (N, None)"
proof (cases "N < 0")
  case False
  then have s: "Itoa N = digits10 (nat N)" by (simp add: Itoa_def)
  from assms False have "nat N < 2 ^ 63" by (simp add: nat_less_iff)
  then have r: "nat N < 2 ^ 64" by simp
  have u: "ParseUint (digits10 (nat N)) = (nat N, None)"
    using digits10_ne ParseUint_loop_digits10 [OF r] by (simp add: ParseUint_def)
  from isDigit_not_sign [OF hd_digits10, of "nat N"] \<open>nat N < 2 ^ 63\<close> False u show ?thesis
    by (simp add: Atoi_def ParseInt_def s digits10_ne intSize_def)
next
  case True
  then have s: "Itoa N = CHR ''-'' # digits10 (nat (- N))" by (simp add: Itoa_def)
  from assms True have b: "nat (- N) \<le> 2 ^ 63" by (simp add: nat_le_iff)
  then have r: "nat (- N) < 2 ^ 64" by simp
  have u: "ParseUint (digits10 (nat (- N))) = (nat (- N), None)"
    using digits10_ne ParseUint_loop_digits10 [OF r] by (simp add: ParseUint_def)
  from b True u show ?thesis
    by (simp add: Atoi_def ParseInt_def s intSize_def)
qed

lemma Itoa_ne: "Itoa N \<noteq> []"
  by (simp add: Itoa_def digits10_ne)

lemma Itoa_chars: "c \<in> set (Itoa N) \<Longrightarrow> isDigit c \<or> c = CHR ''-''"
  by (auto simp: Itoa_def dest: digits10_isDigit split: if_splits)

lemma hd_Itoa: "isDigit (hd (Itoa N)) \<or> hd (Itoa N) = CHR ''-''"
  using Itoa_ne [of N] Itoa_chars [of "hd (Itoa N)" N] by simp

lemma last_Itoa: "isDigit (last (Itoa N))"
  by (simp add: Itoa_def digits10_ne last_digits10)

subsection \<open>Splitting and trimming\<close>

lemma Split_ne: "Split s sep \<noteq> []"
  by (induction s) (auto split: list.splits)

lemma Split_no_sep: "sep \<notin> set s \<Longrightarrow> Split s sep = [s]"
  by (induction s) auto

lemma Split_append: "sep \<notin> set a \<Longrightarrow> Split (a @ sep # b) sep = a # Split b sep"
  by (induction a) auto

lemma TrimSuffix_append: "TrimSuffix (s @ suf) suf = s"
  by (simp add: TrimSuffix_def suffix_def)

lemma spaceRunes_ne: "e \<in> set spaceRunes \<Longrightarrow> e \<noteq> []"
  by (auto simp: spaceRunes_def)

lemma leadingSpace_zero:
  assumes "c \<notin> hd ` set spaceRunes"
  shows "leadingSpace (c # cs) = 0"
proof -
  have "\<not> prefix e (c # cs)" if "e \<in> set spaceRunes" for e
  proof
    assume p: "prefix e (c # cs)"
    from that have "e \<noteq> []" by (rule spaceRunes_ne)
    with p have "hd e = c" by (cases e) auto
    with that assms show False by auto
  qed
  then have "find (\<lambda>e. prefix e (c # cs)) spaceRunes = None"
    by (simp add: find_None_iff)
  then show ?thesis by (simp add: leadingSpace_def)
qed

lemma trailingSpace_zero:
  assumes "c \<notin> last ` set spaceRunes"
  shows "trailingSpace (cs @ [c]) = 0"
proof -
  have "\<not> suffix e (cs @ [c])" if "e \<in> set spaceRunes" for e
  proof
    assume p: "suffix e (cs @ [c])"
    from that have "e \<noteq> []" by (rule spaceRunes_ne)
    with p have "last e = c" by (cases e rule: rev_cases) auto
    with that assms show False by auto
  qed
  then have "find (\<lambda>e. suffix e (cs @ [c])) spaceRunes = None"
    by (simp add: find_None_iff)
  then show ?thesis by (simp add: trailingSpace_def)
qed

lemma digit_not_space_start: "isDigit c \<or> c = CHR ''-'' \<Longrightarrow> c \<notin> hd ` set spaceRunes"
  unfolding spaceRunes_def isDigit_def by auto

lemma digit_not_space_end: "isDigit c \<Longrightarrow> c \<notin> last ` set spaceRunes"
  unfolding spaceRunes_def isDigit_def by auto

lemma TrimLeftSpace_id: "isDigit c \<or> c = CHR ''-'' \<Longrightarrow> TrimLeftSpace (c # cs) = c # cs"
  by (subst TrimLeftSpace.simps) (simp add: leadingSpace_zero digit_not_space_start)

lemma suffix_single: "suffix [x] (cs @ [c]) = (x = c)"
  using snoc_suffix_snoc [of "[]" x cs c] by simp

lemma trailingSpace_blank: "trailingSpace (cs @ [CHR 0x20]) = 1"
  by (simp add: trailingSpace_def spaceRunes_def suffix_single)

lemma TrimRightSpace_digit_blank:
  assumes "s \<noteq> []" and "isDigit (last s)"
  shows "TrimRightSpace (s @ [CHR 0x20]) = s"
proof -
  from assms obtain cs c where s: "s = cs @ [c]" and c: "isDigit c"
    by (cases s rule: rev_cases) auto
  have "TrimRightSpace (s @ [CHR 0x20]) = TrimRightSpace s"
    by (subst TrimRightSpace.simps) (simp add: trailingSpace_blank)
  also have "\<dots> = s"
    unfolding s by (subst TrimRightSpace.simps) (simp add: trailingSpace_zero digit_not_space_end c)
  finally show ?thesis .
qed

section \<open>What the scanner loop computes\<close>

lemma parseLine_other: "\<not> isVmRSS l \<Longrightarrow> parseLine pid l st = Inr st"
  by (simp add: parseLine_def isVmRSS_def)

lemma parseLine_rss:
  "isVmRSS l \<Longrightarrow> \<not> panicLine l \<Longrightarrow>
   parseLine pid l st =
     Inr ((fst st)(1 \<mapsto> fst (Atoi (rssRemainder l))),
          snd st @ (if snd (Atoi (rssRemainder l)) \<noteq> None then [LogRssParseFailed pid] else []))"
  by (auto simp: parseLine_def isVmRSS_def panicLine_def rssRemainder_def Let_def
           split: prod.splits)

lemma scanLoop_result:
  assumes "\<forall>l \<in> set ls. \<not> panicLine l"
  shows "scanLoop pid ls st =
     Inr ((if filter isVmRSS ls = [] then fst st
           else (fst st)(1 \<mapsto> fst (Atoi (rssRemainder (last (filter isVmRSS ls)))))),
          snd st @ rssLog pid ls)"
  using assms
proof (induction ls arbitrary: st)
  case Nil
  then show ?case by (simp add: rssLog_def)
next
  case (Cons l ls)
  then have np: "\<not> panicLine l" and rest: "\<forall>l \<in> set ls. \<not> panicLine l" by simp_all
  show ?case
  proof (cases "isVmRSS l")
    case False
    with Cons.IH [OF rest, of st] show ?thesis
      by (simp add: parseLine_other rssLog_def)
  next
    case True
    define st' where "st' = ((fst st)(1 \<mapsto> fst (Atoi (rssRemainder l))),
          snd st @ (if snd (Atoi (rssRemainder l)) \<noteq> None then [LogRssParseFailed pid] else []))"
    have f: "fst st' = (fst st)(1 \<mapsto> fst (Atoi (rssRemainder l)))"
      and s: "snd st' = snd st @
          (if snd (Atoi (rssRemainder l)) \<noteq> None then [LogRssParseFailed pid] else [])"
      by (simp_all add: st'_def)
    from True np have "parseLine pid l st = Inr st'"
      by (simp add: parseLine_rss st'_def)
    then have "scanLoop pid (l # ls) st = scanLoop pid ls st'" by simp
    also have "\<dots> = Inr ((if filter isVmRSS ls = [] then fst st'
           else (fst st')(1 \<mapsto> fst (Atoi (rssRemainder (last (filter isVmRSS ls)))))),
          snd st' @ rssLog pid ls)"
      by (rule Cons.IH [OF rest])
    also have "\<dots> = Inr ((if filter isVmRSS (l # ls) = [] then fst st
           else (fst st)(1 \<mapsto> fst (Atoi (rssRemainder (last (filter isVmRSS (l # ls))))))),
          snd st @ rssLog pid (l # ls))"
      using True by (simp add: f s rssLog_def)
    finally show ?thesis .
  qed
qed

lemma parseProcessStats_result:
  assumes "\<forall>l \<in> set (ScanLines r). \<not> panicLine l"
  shows "parseProcessStats r pid =
     Inr ((if filter isVmRSS (ScanLines r) = [] then [0 \<mapsto> pid]
           else [0 \<mapsto> pid, 1 \<mapsto> fst (Atoi (rssRemainder (last (filter isVmRSS (ScanLines r)))))]),
          None, rssLog pid (ScanLines r))"
  by (simp add: parseProcessStats_def scanLoop_result [OF assms])

lemma rssLog_wellFormed:
  "\<forall>l \<in> set ls. isVmRSS l \<longrightarrow> wellFormedRSS l \<Longrightarrow> rssLog pid ls = []"
  by (auto simp: rssLog_def wellFormedRSS_def filter_empty_conv)

text \<open>
  C5, as amended. When the lines that the scanner delivers (the lines of the stream
  before the first line of 65536 bytes or more) have more than one VmRSS field line and
  all of these are well formed, the parser returns the record whose slot 1 is the value
  parsed from the last of them: the loop has no \<^verbatim>\<open>break\<close>, every VmRSS field line
  overwrites slot 1, and the delivered lines after a match are scanned as well. The claim
  says so of all lines of the stream; a VmRSS field line behind a line that does not fit
  the scanner's buffer is never scanned.
\<close>

theorem parseProcessStats_last_VmRSS_wins:
  assumes "\<forall>l \<in> set (ScanLines r). isVmRSS l \<longrightarrow> wellFormedRSS l"
    and "1 < length (filter isVmRSS (ScanLines r))"
  shows "parseProcessStats r pid =
     Inr ([0 \<mapsto> pid, 1 \<mapsto> fst (Atoi (rssRemainder (last (filter isVmRSS (ScanLines r)))))],
          None, [])"
proof -
  from assms(1) have np: "\<forall>l \<in> set (ScanLines r). \<not> panicLine l"
    by (auto simp: wellFormedRSS_def panicLine_def)
  from assms(2) have ne: "filter isVmRSS (ScanLines r) \<noteq> []" by auto
  from parseProcessStats_result [OF np, of pid] ne rssLog_wellFormed [OF assms(1), of pid]
  show ?thesis by simp
qed

lemmas line_eval = isVmRSS_def panicLine_def wellFormedRSS_def rssRemainder_def

text \<open>Three VmRSS field lines, 100, 200 and 300 kB, with another line in between: slot 1
  is 300.\<close>

theorem parseProcessStats_last_VmRSS_wins_witness:
  "parseProcessStats (''VmRSS:'' @ [CHR 0x09] @ ''100 kB'' @ [CHR 0x0A] @
                      ''Threads:'' @ [CHR 0x09] @ ''4'' @ [CHR 0x0A] @
                      ''VmRSS:'' @ [CHR 0x09] @ ''200 kB'' @ [CHR 0x0A] @
                      ''VmRSS:'' @ [CHR 0x09] @ ''  300 kB'' @ [CHR 0x0A]) 9
     = Inr ([0 \<mapsto> 9, 1 \<mapsto> 300], None, [])"
proof -
  let ?r = "''VmRSS:'' @ [CHR 0x09] @ ''100 kB'' @ [CHR 0x0A] @
            ''Threads:'' @ [CHR 0x09] @ ''4'' @ [CHR 0x0A] @
            ''VmRSS:'' @ [CHR 0x09] @ ''200 kB'' @ [CHR 0x0A] @
            ''VmRSS:'' @ [CHR 0x09] @ ''  300 kB'' @ [CHR 0x0A]"
  have ls: "ScanLines ?r = [''VmRSS:'' @ [CHR 0x09] @ ''100 kB'', ''Threads:'' @ [CHR 0x09] @ ''4'',
                            ''VmRSS:'' @ [CHR 0x09] @ ''200 kB'', ''VmRSS:'' @ [CHR 0x09] @ ''  300 kB'']"
    by (simp add: bufio_eval)
  have w1: "wellFormedRSS (''VmRSS:'' @ [CHR 0x09] @ ''100 kB'')"
    by (simp add: line_eval strings_eval strconv_eval)
  have w2: "wellFormedRSS (''VmRSS:'' @ [CHR 0x09] @ ''200 kB'')"
    by (simp add: line_eval strings_eval strconv_eval)
  have w3: "wellFormedRSS (''VmRSS:'' @ [CHR 0x09] @ ''  300 kB'')"
    by (simp add: line_eval strings_eval strconv_eval)
  have o: "\<not> isVmRSS (''Threads:'' @ [CHR 0x09] @ ''4'')"
    by (simp add: isVmRSS_def)
  have v: "fst (Atoi (rssRemainder (''VmRSS:'' @ [CHR 0x09] @ ''  300 kB''))) = 300"
    by (simp add: line_eval strings_eval strconv_eval)
  have a: "\<forall>l \<in> set (ScanLines ?r). isVmRSS l \<longrightarrow> wellFormedRSS l"
    unfolding ls using w1 w2 w3 o by simp
  have f: "filter isVmRSS (ScanLines ?r) =
      [''VmRSS:'' @ [CHR 0x09] @ ''100 kB'', ''VmRSS:'' @ [CHR 0x09] @ ''200 kB'',
       ''VmRSS:'' @ [CHR 0x09] @ ''  300 kB'']"
    unfolding ls using w1 w2 w3 o by (simp add: wellFormedRSS_def)
  have b: "1 < length (filter isVmRSS (ScanLines ?r))"
    unfolding f by simp
  from parseProcessStats_last_VmRSS_wins [OF a b, of 9] show ?thesis
    unfolding f using v by simp
qed

section \<open>A single resident-memory line\<close>

lemma digits10_small: "n < 10 \<Longrightarrow> digits10 n = [char_of (48 + n)]"
  by (subst digits10.simps) simp

lemma digits10_large: "\<not> n < 10 \<Longrightarrow> digits10 n = digits10 (n div 10) @ [char_of (48 + n mod 10)]"
  by (subst digits10.simps) simp

lemmas Itoa_eval = Itoa_def digits10_small digits10_large char_of_eq_iff take_bit_eq_mod

lemma colon_not_in_Itoa: "CHR 0x3A \<notin> set (Itoa N)"
  using Itoa_chars [of "CHR 0x3A" N] by (auto simp: isDigit_def)

lemma TrimSpace_Itoa_blank: "TrimSpace (Itoa N @ [CHR 0x20]) = Itoa N"
proof -
  from Itoa_ne [of N] obtain c cs where s: "Itoa N = c # cs" by (cases "Itoa N") auto
  with hd_Itoa [of N] have c: "isDigit c \<or> c = CHR ''-''" by simp
  have "TrimLeftSpace (Itoa N @ [CHR 0x20]) = Itoa N @ [CHR 0x20]"
    unfolding s using TrimLeftSpace_id [OF c, of "cs @ [CHR 0x20]"] by simp
  then show ?thesis
    by (simp add: TrimSpace_def TrimRightSpace_digit_blank [OF Itoa_ne last_Itoa])
qed

lemma rss_line_Split:
  "Split (''VmRSS:'' @ [CHR 0x09] @ Itoa N @ '' kB'') (CHR 0x3A) =
     [''VmRSS'', CHR 0x09 # Itoa N @ '' kB'']"
proof -
  have e: "''VmRSS:'' @ [CHR 0x09] @ Itoa N @ '' kB'' =
        ''VmRSS'' @ CHR 0x3A # (CHR 0x09 # Itoa N @ '' kB'')" by simp
  have "Split (''VmRSS'' @ CHR 0x3A # (CHR 0x09 # Itoa N @ '' kB'')) (CHR 0x3A) =
        ''VmRSS'' # Split (CHR 0x09 # Itoa N @ '' kB'') (CHR 0x3A)"
    by (rule Split_append) simp
  also have "Split (CHR 0x09 # Itoa N @ '' kB'') (CHR 0x3A) = [CHR 0x09 # Itoa N @ '' kB'']"
    by (rule Split_no_sep) (use colon_not_in_Itoa [of N] in simp)
  finally show ?thesis unfolding e .
qed

lemma rss_line_isVmRSS: "isVmRSS (''VmRSS:'' @ [CHR 0x09] @ Itoa N @ '' kB'')"
  unfolding isVmRSS_def rss_line_Split by simp

lemma rss_line_no_panic: "\<not> panicLine (''VmRSS:'' @ [CHR 0x09] @ Itoa N @ '' kB'')"
  unfolding panicLine_def rss_line_Split by simp

lemma rss_line_remainder: "rssRemainder (''VmRSS:'' @ [CHR 0x09] @ Itoa N @ '' kB'') = Itoa N"
proof -
  have "Itoa N @ '' kB'' = (Itoa N @ [CHR 0x20]) @ ''kB''" by simp
  then have "TrimSuffix (Itoa N @ '' kB'') ''kB'' = Itoa N @ [CHR 0x20]"
    by (simp only: TrimSuffix_append)
  then show ?thesis
    unfolding rssRemainder_def rss_line_Split by (simp add: TrimSpace_Itoa_blank)
qed

text \<open>
  C3, as amended. When the lines that the scanner delivers (the lines of the stream
  before the first line of 65536 bytes or more) contain the line
  \<^verbatim>\<open>VmRSS:<TAB><N> kB\<close>, \<open>N\<close> an \<^verbatim>\<open>int\<close> in decimal as \<^verbatim>\<open>strconv.Itoa\<close> writes it,
  and no other VmRSS field line, the parser returns, for every PID \<open>p\<close>, the record with
  slot 0 equal to \<open>p\<close> and slot 1 equal to \<open>N\<close>, a nil error, and logs nothing. The
  claim says so of every stream that contains the line; behind a line that does not fit
  the scanner's buffer the line is never scanned.
\<close>

theorem parseProcessStats_single_VmRSS:
  assumes "ScanLines r = pre @ [''VmRSS:'' @ [CHR 0x09] @ Itoa N @ '' kB''] @ post"
    and "\<forall>l \<in> set pre \<union> set post. \<not> isVmRSS l"
    and "- (2 ^ 63) \<le> N" and "N < 2 ^ 63"
  shows "parseProcessStats r p = Inr ([0 \<mapsto> p, 1 \<mapsto> N], None, [])"
proof -
  let ?l = "''VmRSS:'' @ [CHR 0x09] @ Itoa N @ '' kB''"
  have v: "Atoi (rssRemainder ?l) = (N, None)"
    unfolding rss_line_remainder by (rule Atoi_Itoa [OF assms(3,4)])
  have np: "\<forall>l \<in> set (ScanLines r). \<not> panicLine l"
    unfolding assms(1) using assms(2) rss_line_no_panic [of N]
    by (auto simp: panicLine_def)
  have f: "filter isVmRSS (ScanLines r) = [?l]"
    unfolding assms(1) using assms(2) rss_line_isVmRSS [of N]
    by (simp add: filter_empty_conv)
  have lg: "rssLog p (ScanLines r) = []"
  proof (rule rssLog_wellFormed)
    show "\<forall>l \<in> set (ScanLines r). isVmRSS l \<longrightarrow> wellFormedRSS l"
      unfolding assms(1) using assms(2) rss_line_isVmRSS [of N] rss_line_no_panic [of N] v
      by (auto simp: wellFormedRSS_def)
  qed
  from parseProcessStats_result [OF np, of p] show ?thesis
    unfolding f lg using v by simp
qed

text \<open>The scenario of the test: the line \<^verbatim>\<open>VmRSS:<TAB>11708 kB\<close> among other status lines,
  parsed with PID 123.\<close>

theorem parseProcessStats_single_VmRSS_witness:
  "parseProcessStats (''Name:'' @ [CHR 0x09] @ ''hekad'' @ [CHR 0x0A] @
                      ''VmPeak:'' @ [CHR 0x09] @ ''   20000 kB'' @ [CHR 0x0A] @
                      ''VmRSS:'' @ [CHR 0x09] @ ''11708 kB'' @ [CHR 0x0A] @
                      ''Threads:'' @ [CHR 0x09] @ ''4'' @ [CHR 0x0A]) 123
     = Inr ([0 \<mapsto> 123, 1 \<mapsto> 11708], None, [])"
proof -
  let ?r = "''Name:'' @ [CHR 0x09] @ ''hekad'' @ [CHR 0x0A] @
            ''VmPeak:'' @ [CHR 0x09] @ ''   20000 kB'' @ [CHR 0x0A] @
            ''VmRSS:'' @ [CHR 0x09] @ ''11708 kB'' @ [CHR 0x0A] @
            ''Threads:'' @ [CHR 0x09] @ ''4'' @ [CHR 0x0A]"
  have i: "Itoa 11708 = ''11708''"
    by (simp add: Itoa_eval)
  have a: "ScanLines ?r =
      [''Name:'' @ [CHR 0x09] @ ''hekad'', ''VmPeak:'' @ [CHR 0x09] @ ''   20000 kB'']
      @ [''VmRSS:'' @ [CHR 0x09] @ Itoa 11708 @ '' kB''] @ [''Threads:'' @ [CHR 0x09] @ ''4'']"
    unfolding i by (simp add: bufio_eval)
  have b: "\<forall>l \<in> set [''Name:'' @ [CHR 0x09] @ ''hekad'', ''VmPeak:'' @ [CHR 0x09] @ ''   20000 kB'']
               \<union> set [''Threads:'' @ [CHR 0x09] @ ''4'']. \<not> isVmRSS l"
    by (simp add: isVmRSS_def)
  have c: "- (2 ^ 63) \<le> (11708 :: int)" and d: "(11708 :: int) < 2 ^ 63"
    by simp_all
  from parseProcessStats_single_VmRSS [OF a b c d, of 123] show ?thesis .
qed

section \<open>The orchestrator\<close>

lemma getProcessStats_loop_append:
  "getProcessStats_loop pfp fs (pre @ more) st =
     (case getProcessStats_loop pfp fs pre st of
        Inl p \<Rightarrow> Inl p
      | Inr (m, None, lg) \<Rightarrow> getProcessStats_loop pfp fs more (m, lg)
      | Inr (m, Some e, lg) \<Rightarrow> Inr (m, Some e, lg))"
proof (induction pre arbitrary: st)
  case Nil
  then show ?case by simp
next
  case (Cons a pre)
  obtain n p where a: "a = (n, p)" by (cases a)
  show ?case
    unfolding a by (simp add: Let_def Cons.IH split: option.splits sum.splits prod.splits)
qed

lemma getProcessStats_loop_others:
  "getProcessStats_loop pfp fs kvs st = Inr (m, e, lg) \<Longrightarrow> x \<notin> fst ` set kvs \<Longrightarrow> m x = fst st x"
proof (induction kvs arbitrary: st)
  case Nil
  then show ?case by auto
next
  case (Cons a kvs)
  obtain n p where a: "a = (n, p)" by (cases a)
  from Cons.prems(2) have xn: "x \<noteq> n" and xk: "x \<notin> fst ` set kvs" by (auto simp: a)
  show ?case
  proof (cases "fs (statusFile pfp p)")
    case None
    with Cons.prems(1) show ?thesis by (auto simp: a Let_def)
  next
    case (Some procFile)
    show ?thesis
    proof (cases "parseProcessStats procFile p")
      case (Inl q)
      with Some Cons.prems(1) show ?thesis by (simp add: a Let_def)
    next
      case (Inr res)
      obtain stats err lg1 where res: "res = (stats, err, lg1)" by (cases res)
      define st' where "st' = ((fst st)(n \<mapsto> stats),
          snd st @ lg1 @ (if err \<noteq> None then [LogParseStatsFailed n] else []))"
      from Some Inr res Cons.prems(1) have "getProcessStats_loop pfp fs kvs st' = Inr (m, e, lg)"
        by (simp add: a Let_def st'_def)
      from Cons.IH [OF this xk] xn show ?thesis by (simp add: st'_def)
    qed
  qed
qed

lemma getProcessStats_loop_ok:
  assumes "\<forall>(n, p) \<in> set kvs. \<exists>procFile res.
             fs (statusFile pfp p) = Some procFile \<and> parseProcessStats procFile p = Inr res"
  shows "\<exists>m lg. getProcessStats_loop pfp fs kvs st = Inr (m, None, lg) \<and>
           dom m = dom (fst st) \<union> fst ` set kvs"
  using assms
proof (induction kvs arbitrary: st)
  case Nil
  then show ?case by simp
next
  case (Cons a kvs)
  obtain n p where a: "a = (n, p)" by (cases a)
  from Cons.prems obtain procFile res where
    o: "fs (statusFile pfp p) = Some procFile" and r: "parseProcessStats procFile p = Inr res"
    by (auto simp: a)
  obtain stats err lg1 where res: "res = (stats, err, lg1)" by (cases res)
  from r res have err: "err = None" by (auto dest: parseProcessStats_error_nil)
  define st' where "st' = ((fst st)(n \<mapsto> stats), snd st @ lg1)"
  have step: "getProcessStats_loop pfp fs (a # kvs) st = getProcessStats_loop pfp fs kvs st'"
    using o r res err by (simp add: a Let_def st'_def)
  from Cons.prems have "\<forall>(n, p) \<in> set kvs. \<exists>procFile res.
             fs (statusFile pfp p) = Some procFile \<and> parseProcessStats procFile p = Inr res"
    by simp
  from Cons.IH [OF this, of st'] obtain m lg where
    "getProcessStats_loop pfp fs kvs st' = Inr (m, None, lg)"
    "dom m = dom (fst st') \<union> fst ` set kvs" by blast
  with step show ?case by (auto simp: st'_def a)
qed

lemma getProcessStats_loop_records:
  "distinct (map fst kvs) \<Longrightarrow> getProcessStats_loop pfp fs kvs st = Inr (m, None, lg) \<Longrightarrow>
   (n, p) \<in> set kvs \<Longrightarrow>
   \<exists>procFile stats lg'. fs (statusFile pfp p) = Some procFile \<and>
      parseProcessStats procFile p = Inr (stats, None, lg') \<and> m n = Some stats"
proof (induction kvs arbitrary: st)
  case Nil
  then show ?case by simp
next
  case (Cons a kvs)
  obtain n0 p0 where a: "a = (n0, p0)" by (cases a)
  from Cons.prems(1) have d: "distinct (map fst kvs)" and fresh: "n0 \<notin> fst ` set kvs"
    by (auto simp: a)
  show ?case
  proof (cases "fs (statusFile pfp p0)")
    case None
    with Cons.prems(2) show ?thesis by (simp add: a Let_def)
  next
    case (Some procFile)
    show ?thesis
    proof (cases "parseProcessStats procFile p0")
      case (Inl q)
      with Some Cons.prems(2) show ?thesis by (simp add: a Let_def)
    next
      case (Inr res)
      obtain stats err lg1 where res: "res = (stats, err, lg1)" by (cases res)
      from Inr res have err: "err = None" by (auto dest: parseProcessStats_error_nil)
      define st' where "st' = ((fst st)(n0 \<mapsto> stats), snd st @ lg1)"
      from Some Inr res err Cons.prems(2)
      have run: "getProcessStats_loop pfp fs kvs st' = Inr (m, None, lg)"
        by (simp add: a Let_def st'_def)
      show ?thesis
      proof (cases "(n, p) = (n0, p0)")
        case True
        from getProcessStats_loop_others [OF run fresh] have "m n0 = Some stats"
          by (simp add: st'_def)
        with True Some Inr res err show ?thesis by auto
      next
        case False
        with Cons.prems(3) have "(n, p) \<in> set kvs" by (auto simp: a)
        from Cons.IH [OF d run this] show ?thesis .
      qed
    qed
  qed
qed

text \<open>
  C6. Let the loop visit the entries of the mapping in the order \<open>pre\<close>, then
  \<open>(procName, pid)\<close>, then \<open>post\<close>, let the status files of the processes in
  \<open>pre\<close> open and parse, and let the status file of \<open>pid\<close> fail to open. Then the call
  returns the error of \<^verbatim>\<open>os.Open\<close> together with the mapping built so far: it holds the
  records of the processes in \<open>pre\<close> and of no other, so neither \<open>procName\<close> nor a
  process of \<open>post\<close> has an entry.
\<close>

theorem getProcessStats_open_failure:
  assumes "rangeOrder procPID (pre @ (procName, pid) # post)"
    and "\<forall>(n, p) \<in> set pre. \<exists>procFile res.
           fs (statusFile procFilePath p) = Some procFile \<and> parseProcessStats procFile p = Inr res"
    and "fs (statusFile procFilePath pid) = None"
  shows "\<exists>m lg. getProcessStats procFilePath fs (pre @ (procName, pid) # post)
                  = Inr (m, Some (PathError (statusFile procFilePath pid)), lg)
           \<and> dom m = fst ` set pre
           \<and> (\<forall>(n, p) \<in> set pre. \<exists>procFile stats lg'.
                 fs (statusFile procFilePath p) = Some procFile \<and>
                 parseProcessStats procFile p = Inr (stats, None, lg') \<and> m n = Some stats)
           \<and> m procName = None
           \<and> (\<forall>(n, p) \<in> set post. m n = None)"
proof -
  from assms(1) have d: "distinct (map fst pre)"
    and np: "procName \<notin> fst ` set pre"
    and disj: "fst ` set pre \<inter> fst ` set post = {}"
    by (auto simp: rangeOrder_def)
  have npost: "\<forall>(n, p) \<in> set post. n \<notin> fst ` set pre"
  proof -
    have "n \<notin> fst ` set pre" if "(n, p) \<in> set post" for n p
    proof
      assume "n \<in> fst ` set pre"
      moreover from that have "n \<in> fst ` set post" by force
      ultimately show False using disj by blast
    qed
    then show ?thesis by blast
  qed
  from getProcessStats_loop_ok [OF assms(2), of "(Map.empty, [])"] obtain m lg where
    run: "getProcessStats_loop procFilePath fs pre (Map.empty, []) = Inr (m, None, lg)"
    and dm: "dom m = fst ` set pre" by auto
  have "getProcessStats procFilePath fs (pre @ (procName, pid) # post)
          = Inr (m, Some (PathError (statusFile procFilePath pid)),
                 lg @ [LogOpenFailed (statusFile procFilePath pid)])"
    by (simp add: getProcessStats_def getProcessStats_loop_append run assms(3) Let_def)
  moreover have "\<forall>(n, p) \<in> set pre. \<exists>procFile stats lg'.
                 fs (statusFile procFilePath p) = Some procFile \<and>
                 parseProcessStats procFile p = Inr (stats, None, lg') \<and> m n = Some stats"
    using getProcessStats_loop_records [OF d run] by blast
  moreover have "m procName = None"
  proof -
    from np have "procName \<notin> dom m" unfolding dm .
    then show ?thesis by (simp add: domIff)
  qed
  moreover have "\<forall>(n, p) \<in> set post. m n = None"
  proof -
    have "m n = None" if "(n, p) \<in> set post" for n p
    proof -
      from npost that have "n \<notin> dom m" unfolding dm by blast
      then show ?thesis by (simp add: domIff)
    qed
    then show ?thesis by blast
  qed
  ultimately show ?thesis using dm by blast
qed

text \<open>Three processes visited in the order hekad, nginx, redis; \<^verbatim>\<open>/proc/20/status\<close> of
  nginx does not exist. The result holds the record of hekad and the error.\<close>

theorem getProcessStats_open_failure_witness:
  "\<exists>m lg. getProcessStats (\<lambda>name. ''/proc/'' @ name)
             [''/proc/10/status'' \<mapsto> ''VmRSS:'' @ [CHR 0x09] @ ''5 kB'' @ [CHR 0x0A],
              ''/proc/30/status'' \<mapsto> ''VmRSS:'' @ [CHR 0x09] @ ''7 kB'' @ [CHR 0x0A]]
             ([(''hekad'', 10)] @ (''nginx'', 20) # [(''redis'', 30)])
           = Inr (m, Some (PathError ''/proc/20/status''), lg)
         \<and> dom m = {''hekad''}
         \<and> m ''hekad'' = Some [0 \<mapsto> 10, 1 \<mapsto> 5]
         \<and> m ''nginx'' = None
         \<and> m ''redis'' = None"
proof -
  define pfp :: "string \<Rightarrow> string" where "pfp = (\<lambda>name. ''/proc/'' @ name)"
  let ?fs = "[''/proc/10/status'' \<mapsto> ''VmRSS:'' @ [CHR 0x09] @ ''5 kB'' @ [CHR 0x0A],
              ''/proc/30/status'' \<mapsto> ''VmRSS:'' @ [CHR 0x09] @ ''7 kB'' @ [CHR 0x0A]]"
  let ?kvs = "[(''hekad'', 10)] @ (''nginx'', 20) # [(''redis'', 30 :: int)]"
  have f10: "statusFile pfp 10 = ''/proc/10/status''"
    and f20: "statusFile pfp 20 = ''/proc/20/status''"
    by (simp_all add: statusFile_def pfp_def Itoa_eval)
  have p10: "parseProcessStats (''VmRSS:'' @ [CHR 0x09] @ ''5 kB'' @ [CHR 0x0A]) 10
               = Inr ([0 \<mapsto> 10, 1 \<mapsto> 5], None, [])"
    by (simp add: parse_eval)
  have a: "rangeOrder (map_of ?kvs) ?kvs"
    by (simp add: rangeOrder_def)
  have b: "\<forall>(n, p) \<in> set [(''hekad'', 10 :: int)]. \<exists>procFile res.
           ?fs (statusFile pfp p) = Some procFile \<and> parseProcessStats procFile p = Inr res"
    using p10 by (simp add: f10)
  have c: "?fs (statusFile pfp 20) = None"
    by (simp add: f20)
  from getProcessStats_open_failure [OF a b c] obtain m lg where
    r: "getProcessStats pfp ?fs ?kvs = Inr (m, Some (PathError (statusFile pfp 20)), lg)"
    and d: "dom m = fst ` set [(''hekad'', 10 :: int)]"
    and rec: "\<forall>(n, p) \<in> set [(''hekad'', 10 :: int)]. \<exists>procFile stats lg'.
                 ?fs (statusFile pfp p) = Some procFile \<and>
                 parseProcessStats procFile p = Inr (stats, None, lg') \<and> m n = Some stats"
    and n1: "m ''nginx'' = None"
    and n2: "\<forall>(n, p) \<in> set [(''redis'', 30 :: int)]. m n = None"
    by blast
  from rec p10 have "m ''hekad'' = Some [0 \<mapsto> 10, 1 \<mapsto> 5]"
    by (simp add: f10)
  moreover from d have "dom m = {''hekad''}" by simp
  moreover from n2 have "m ''redis'' = None" by simp
  moreover from r have "getProcessStats pfp ?fs ?kvs = Inr (m, Some (PathError ''/proc/20/status''), lg)"
    by (simp only: f20)
  ultimately show ?thesis using n1 unfolding pfp_def by blast
qed

section \<open>Further facts about the scanner and the parser\<close>

text \<open>A line that fits the scanner's buffer and ends in a newline is delivered, and the
  scan goes on behind the newline.\<close>

lemma ScanLines_line:
  assumes "CHR 0x0A \<notin> set l" and "length l < MaxScanTokenSize"
  shows "ScanLines (l @ CHR 0x0A # more) = dropCR l # ScanLines more"
proof -
  from assms(1) have t: "takeWhile (\<lambda>c. c \<noteq> CHR 0x0A) (l @ CHR 0x0A # more) = l"
    by (induction l) auto
  from assms(1) have d: "dropWhile (\<lambda>c. c \<noteq> CHR 0x0A) (l @ CHR 0x0A # more) = CHR 0x0A # more"
    by (induction l) auto
  show ?thesis
    by (subst ScanLines.simps) (use assms(2) in \<open>simp add: t d Let_def\<close>)
qed

text \<open>A text made of newline-terminated lines, each shorter than the buffer, is delivered
  line by line.\<close>

lemma ScanLines_terminated_lines:
  "\<forall>l \<in> set ls. CHR 0x0A \<notin> set l \<and> length l < MaxScanTokenSize \<Longrightarrow>
   ScanLines (concat (map (\<lambda>l. l @ [CHR 0x0A]) ls)) = map dropCR ls"
proof (induction ls)
  case Nil
  then show ?case by (simp add: ScanLines_Nil)
next
  case (Cons l ls)
  then have "ScanLines (l @ CHR 0x0A # concat (map (\<lambda>l. l @ [CHR 0x0A]) ls))
               = dropCR l # ScanLines (concat (map (\<lambda>l. l @ [CHR 0x0A]) ls))"
    by (intro ScanLines_line) simp_all
  with Cons show ?case by simp
qed

text \<open>A line of \<open>MaxScanTokenSize\<close> bytes or more ends the scan: nothing behind it is
  delivered.\<close>

lemma ScanLines_too_long:
  assumes "CHR 0x0A \<notin> set l" and "MaxScanTokenSize \<le> length l"
  shows "ScanLines (l @ CHR 0x0A # more) = []"
proof -
  from assms(1) have t: "takeWhile (\<lambda>c. c \<noteq> CHR 0x0A) (l @ CHR 0x0A # more) = l"
    by (induction l) auto
  show ?thesis
    by (subst ScanLines.simps) (use assms(2) in \<open>simp add: t Let_def\<close>)
qed

text \<open>The parser panics exactly when one of the scanned lines is a VmRSS field line
  without a second piece or with an empty one.\<close>

lemma parseProcessStats_panic_iff:
  "(\<exists>p. parseProcessStats r pid = Inl p) \<longleftrightarrow> (\<exists>l \<in> set (ScanLines r). panicLine l)"
proof
  assume "\<exists>p. parseProcessStats r pid = Inl p"
  show "\<exists>l \<in> set (ScanLines r). panicLine l"
  proof (rule ccontr)
    assume "\<not> (\<exists>l \<in> set (ScanLines r). panicLine l)"
    then have "\<forall>l \<in> set (ScanLines r). \<not> panicLine l" by simp
    from parseProcessStats_result [OF this, of pid] \<open>\<exists>p. parseProcessStats r pid = Inl p\<close>
    show False by auto
  qed
next
  assume "\<exists>l \<in> set (ScanLines r). panicLine l"
  from scanLoop_panic [OF this] obtain p
    where "scanLoop pid (ScanLines r) (Map.empty(0 \<mapsto> pid), []) = Inl p" by blast
  then show "\<exists>p. parseProcessStats r pid = Inl p" by (simp add: parseProcessStats_def)
qed

text \<open>When the parser returns, slot 1 is set exactly when the stream has a VmRSS field
  line, whether or not its value parses.\<close>

lemma parseProcessStats_slot1_iff:
  assumes "parseProcessStats r pid = Inr (stats, err, lg)"
  shows "stats 1 \<noteq> None \<longleftrightarrow> (\<exists>l \<in> set (ScanLines r). isVmRSS l)"
proof -
  have np: "\<forall>l \<in> set (ScanLines r). \<not> panicLine l"
    using assms parseProcessStats_panic_iff [of r pid] by auto
  have "filter isVmRSS (ScanLines r) \<noteq> [] \<longleftrightarrow> (\<exists>l \<in> set (ScanLines r). isVmRSS l)"
    by (simp add: filter_empty_conv)
  with parseProcessStats_result [OF np, of pid] assms show ?thesis
    by (auto split: if_splits)
qed

text \<open>The mapping of the resolver has an entry for every configured name whose PID file
  can be read, whatever the file holds.\<close>

lemma Update_procPID_dom:
  assumes "Update_procPID fs names = Inr (m, lg)"
  shows "dom m = {n \<in> set names. fs (pidFile n) \<noteq> None}"
proof -
  have ne: "\<forall>n \<in> set names. fs (pidFile n) \<noteq> Some []"
  proof (rule ccontr)
    assume "\<not> (\<forall>n \<in> set names. fs (pidFile n) \<noteq> Some [])"
    then obtain n where "n \<in> set names" "fs (pidFile n) = Some []" by auto
    from resolvePIDs_panic [where fs = fs and st = "(Map.empty, [])", OF this] assms show False
      by (simp add: Update_procPID_def)
  qed
  from resolvePIDs_char [OF ne, of "(Map.empty, [])"] assms
  have "\<forall>n. m n = (if n \<in> set names
                 then (case fs (pidFile n) of None \<Rightarrow> None
                       | Some b \<Rightarrow> Some (fst (Atoi (butlast b))))
                 else None)"
    by (auto simp: Update_procPID_def split: option.splits)
  then show ?thesis
    by (auto simp: dom_def split: option.splits if_splits)
qed

section \<open>A line that does not fit the scanner's buffer\<close>

text \<open>
  \<^verbatim>\<open>parseProcessStats\<close> never looks at \<^verbatim>\<open>scanner.Err()\<close>: at a line of 65536 bytes or
  more \<^verbatim>\<open>Scan\<close> returns false, the loop ends as at the end of the file, and the lines
  behind the long one are never seen.
\<close>

lemma ScanLines_long_line:
  "ScanLines (replicate 65536 (CHR ''a'') @ CHR 0x0A # more) = []"
  by (rule ScanLines_too_long) (simp_all add: MaxScanTokenSize_def)

lemma parseProcessStats_no_lines:
  "ScanLines r = [] \<Longrightarrow> parseProcessStats r pid = Inr ([0 \<mapsto> pid], None, [])"
  by (simp add: parseProcessStats_def)

text \<open>
  C3, the claim as stated. A line of 65536 bytes, then the single resident-memory line
  \<^verbatim>\<open>VmRSS:<TAB>5 kB\<close>, parsed with PID 7: the stream contains exactly one such line, and
  the record has slot 0 only.
\<close>

theorem parseProcessStats_single_VmRSS_counterexample:
  "parseProcessStats
     (replicate 65536 (CHR ''a'') @ CHR 0x0A # (''VmRSS:'' @ [CHR 0x09] @ ''5 kB'' @ [CHR 0x0A])) 7
   = Inr ([0 \<mapsto> 7], None, [])"
  by (rule parseProcessStats_no_lines) (rule ScanLines_long_line)

text \<open>
  C5, the claim as stated. Three well-formed VmRSS field lines, 1, 2 and 3 kB, with a
  line of 65536 bytes before the third: slot 1 holds 2, the value of the second, and not
  the value of the last occurrence in the stream.
\<close>

theorem parseProcessStats_last_VmRSS_wins_counterexample:
  "parseProcessStats
     ((''VmRSS:'' @ [CHR 0x09] @ ''1 kB'') @ CHR 0x0A #
      (''VmRSS:'' @ [CHR 0x09] @ ''2 kB'') @ CHR 0x0A #
      replicate 65536 (CHR ''a'') @ CHR 0x0A #
      (''VmRSS:'' @ [CHR 0x09] @ ''3 kB'' @ [CHR 0x0A])) 7
   = Inr ([0 \<mapsto> 7, 1 \<mapsto> 2], None, [])"
proof -
  have "ScanLines
     ((''VmRSS:'' @ [CHR 0x09] @ ''1 kB'') @ CHR 0x0A #
      (''VmRSS:'' @ [CHR 0x09] @ ''2 kB'') @ CHR 0x0A #
      replicate 65536 (CHR ''a'') @ CHR 0x0A #
      (''VmRSS:'' @ [CHR 0x09] @ ''3 kB'' @ [CHR 0x0A]))
    = dropCR (''VmRSS:'' @ [CHR 0x09] @ ''1 kB'') #
      ScanLines ((''VmRSS:'' @ [CHR 0x09] @ ''2 kB'') @ CHR 0x0A #
        replicate 65536 (CHR ''a'') @ CHR 0x0A #
        (''VmRSS:'' @ [CHR 0x09] @ ''3 kB'' @ [CHR 0x0A]))"
    by (rule ScanLines_line) (simp_all add: MaxScanTokenSize_def)
  also have "ScanLines ((''VmRSS:'' @ [CHR 0x09] @ ''2 kB'') @ CHR 0x0A #
        replicate 65536 (CHR ''a'') @ CHR 0x0A #
        (''VmRSS:'' @ [CHR 0x09] @ ''3 kB'' @ [CHR 0x0A]))
    = dropCR (''VmRSS:'' @ [CHR 0x09] @ ''2 kB'') #
      ScanLines (replicate 65536 (CHR ''a'') @ CHR 0x0A #
        (''VmRSS:'' @ [CHR 0x09] @ ''3 kB'' @ [CHR 0x0A]))"
    by (rule ScanLines_line) (simp_all add: MaxScanTokenSize_def)
  also have "ScanLines (replicate 65536 (CHR ''a'') @ CHR 0x0A #
        (''VmRSS:'' @ [CHR 0x09] @ ''3 kB'' @ [CHR 0x0A])) = []"
    by (rule ScanLines_long_line)
  finally have ls: "ScanLines
     ((''VmRSS:'' @ [CHR 0x09] @ ''1 kB'') @ CHR 0x0A #
      (''VmRSS:'' @ [CHR 0x09] @ ''2 kB'') @ CHR 0x0A #
      replicate 65536 (CHR ''a'') @ CHR 0x0A #
      (''VmRSS:'' @ [CHR 0x09] @ ''3 kB'' @ [CHR 0x0A]))
    = [dropCR (''VmRSS:'' @ [CHR 0x09] @ ''1 kB''), dropCR (''VmRSS:'' @ [CHR 0x09] @ ''2 kB'')]" .
  show ?thesis
    unfolding parseProcessStats_def ls
    by (simp add: parseLine_def dropCR_def strings_eval strconv_eval)
qed

text \<open>
  C9, the claim as stated. A line of 65536 bytes, then a line that is exactly
  \<^verbatim>\<open>VmRSS\<close>: the parser does not panic, it returns the record with slot 0 only and a nil
  error.
\<close>

theorem parseProcessStats_panics_counterexample:
  "parseProcessStats (replicate 65536 (CHR ''a'') @ CHR 0x0A # (''VmRSS'' @ [CHR 0x0A])) 7
   = Inr ([0 \<mapsto> 7], None, [])"
  by (rule parseProcessStats_no_lines) (rule ScanLines_long_line)

end
